theory Spec2Isabelle
  imports Complex_Main "HOL-Library.Multiset" "HOL-Library.Sublist"
    "HOL-Library.Char_ord" "HOL-Library.List_Lexorder"
begin

text \<open>
  A model of the backend of the tweet analysis service: the text normalizer
  (\<^verbatim>\<open>preprocess.py\<close>), the sentiment scorer (\<^verbatim>\<open>vader.py\<close>), the queries of the
  persistent store (\<^verbatim>\<open>database.py\<close>), the similarity search (\<^verbatim>\<open>similarity.py\<close>) and
  the request handler that combines them (\<^verbatim>\<open>main.py\<close>).

  A Python \<open>str\<close> is modelled as a \<open>string\<close>: a list of characters, one \<open>char\<close> per code
  point, for the code points below 256. The character classes of Python's \<open>re\<close> module and
  of \<open>str.strip\<close> are written out for exactly this range. Calls into libraries (the VADER
  scorer, the sentence encoder, \<open>json\<close>, \<open>random\<close>) are parameters of the functions that
  make them.
\<close>

section \<open>Errors raised by the backend\<close>

text \<open>
  Every exception that the modelled functions can raise is a value of this type:
  \<^item> \<open>KeyError\<close>: a dictionary lookup \<open>d[k]\<close> on a missing key;
  \<^item> \<open>InvalidDateFormat\<close>: the \<open>ValueError("Invalid date format. Please use YYYYMMDD.")\<close>
    of \<open>filter_entries_by_date\<close>;
  \<^item> \<open>JSONDecodeError\<close>: \<open>json.loads\<close> on a string that is not JSON;
  \<^item> \<open>ShapeError\<close>: the \<open>ValueError\<close> of \<open>np.vstack\<close> and \<open>cosine_similarity\<close>
    on an empty, ragged or mismatched matrix;
  \<^item> \<open>NotFound\<close>: the \<open>HTTPException(404)\<close> of the request layer;
  \<^item> \<open>ValidationError\<close>: the rejection of a query parameter outside its declared range
    (\<open>Query(..., ge=1)\<close>);
  \<^item> \<open>OperationalError\<close>: the error of SQLite on a \<open>LIKE\<close> pattern that is too long.
\<close>

datatype error =
  KeyError | InvalidDateFormat | JSONDecodeError | ShapeError | NotFound | ValidationError
  | OperationalError

section \<open>Sentiment label (vader.py)\<close>

text \<open>
  \<open>classify_sentiment(score)\<close> reads \<open>score['compound']\<close> and thresholds it. The score
  dictionary is a map from dimension names to values; a missing key raises \<open>KeyError\<close>.
  The compound score is a finite float, and comparing floats is comparing their values, so
  the thresholds are the numbers \<open>0.05\<close> and \<open>-0.05\<close>.
\<close>

type_synonym scores = "string \<rightharpoonup> real"

definition classify_sentiment :: "scores \<Rightarrow> error + string" where
  "classify_sentiment score =
     (case score ''compound'' of
        None \<Rightarrow> Inl KeyError
      | Some c \<Rightarrow>
          if c \<ge> 0.05 then Inr ''positive''
          else if c \<le> - 0.05 then Inr ''negative''
          else Inr ''neutral'')"

section \<open>Text normalizer (preprocess.py)\<close>

subsection \<open>Character classes\<close>

text \<open>
  \<open>is_space\<close> is the class \<open>\s\<close> of a \<open>str\<close> pattern, which is also what \<open>str.strip()\<close>
  removes: tab, line feed, vertical tab, form feed, carriage return, the separators
  \<open>0x1C\<close> to \<open>0x1F\<close>, space, \<open>0x85\<close> and the no-break space \<open>0xA0\<close>.
  \<open>is_word\<close> is the class \<open>\w\<close>: the alphanumeric characters and the underscore.
\<close>

definition is_space :: "char \<Rightarrow> bool" where
  "is_space c \<longleftrightarrow>
     (let n = (of_char c :: nat)
      in (9 \<le> n \<and> n \<le> 13) \<or> (28 \<le> n \<and> n \<le> 32) \<or> n = 133 \<or> n = 160)"

definition is_word :: "char \<Rightarrow> bool" where
  "is_word c \<longleftrightarrow>
     (let n = (of_char c :: nat)
      in (48 \<le> n \<and> n \<le> 57) \<or> (65 \<le> n \<and> n \<le> 90) \<or> n = 95 \<or> (97 \<le> n \<and> n \<le> 122)
         \<or> n = 170 \<or> n = 178 \<or> n = 179 \<or> n = 181 \<or> n = 185 \<or> n = 186
         \<or> (188 \<le> n \<and> n \<le> 190) \<or> (192 \<le> n \<and> n \<le> 214)
         \<or> (216 \<le> n \<and> n \<le> 246) \<or> (248 \<le> n \<and> n \<le> 255))"

subsection \<open>The substitutions\<close>

text \<open>
  \<open>re.sub(r'@\w+', '', s)\<close>: scanning from the left, an \<open>@\<close> followed by at least one
  word character is removed together with the longest run of word characters after it.
\<close>

function sub_mention :: "string \<Rightarrow> string" where
  "sub_mention [] = []"
| "sub_mention (c # cs) =
     (if c = CHR ''@'' \<and> cs \<noteq> [] \<and> is_word (hd cs)
      then sub_mention (dropWhile is_word cs)
      else c # sub_mention cs)"
  by pat_completeness auto
termination
  by (relation "measure length") (auto simp: le_imp_less_Suc length_dropWhile_le)

text \<open>
  \<open>re.sub(r'http[s]?://\S+', '', s)\<close>: \<open>match_url\<close> is the match of the pattern at the
  start of a string; it returns what follows the match. The run \<open>\S+\<close> is greedy and
  nothing follows it in the pattern, so it takes every character up to the next whitespace.
\<close>

definition match_url :: "string \<Rightarrow> string option" where
  "match_url s =
     (if prefix ''https://'' s \<and> drop 8 s \<noteq> [] \<and> \<not> is_space (hd (drop 8 s))
      then Some (dropWhile (\<lambda>c. \<not> is_space c) (drop 8 s))
      else if prefix ''http://'' s \<and> drop 7 s \<noteq> [] \<and> \<not> is_space (hd (drop 7 s))
      then Some (dropWhile (\<lambda>c. \<not> is_space c) (drop 7 s))
      else None)"

function sub_url :: "string \<Rightarrow> string" where
  "sub_url [] = []"
| "sub_url (c # cs) =
     (case match_url (c # cs) of
        Some rest \<Rightarrow> sub_url rest
      | None \<Rightarrow> c # sub_url cs)"
  by pat_completeness auto
termination
proof (relation "measure length")
  fix c cs rest
  assume m: "match_url (c # cs) = Some rest"
  have "length (dropWhile (\<lambda>c. \<not> is_space c) (drop n (c # cs))) < length (c # cs)"
    if "drop n (c # cs) \<noteq> []" "0 < n" for n
  proof -
    have "length (dropWhile (\<lambda>c. \<not> is_space c) (drop n (c # cs))) \<le> length (drop n (c # cs))"
      by (rule length_dropWhile_le)
    also have "\<dots> < length (c # cs)" using that by simp
    finally show ?thesis .
  qed
  from this [of 8] this [of 7] m show "(rest, c # cs) \<in> measure length"
    by (auto simp: match_url_def split: if_splits)
qed auto

text \<open>
  \<open>re.sub(r'\b#', '', s)\<close>: a \<open>#\<close> is not a word character, so the word boundary
  \<open>\b\<close> in front of it holds exactly when the character before it, in the string being
  scanned, is a word character. \<open>sub_hash_from w s\<close> scans \<open>s\<close>, where \<open>w\<close> tells whether
  the character before \<open>s\<close> is a word character; at the start of the string it is not.
\<close>

fun sub_hash_from :: "bool \<Rightarrow> string \<Rightarrow> string" where
  "sub_hash_from w [] = []"
| "sub_hash_from w (c # cs) =
     (if c = CHR ''#'' \<and> w then sub_hash_from False cs
      else c # sub_hash_from (is_word c) cs)"

definition sub_hash :: "string \<Rightarrow> string" where
  "sub_hash s = sub_hash_from False s"

text \<open>\<open>s.replace('\n', ' ')\<close>.\<close>

definition replace_newline :: "string \<Rightarrow> string" where
  "replace_newline s = map (\<lambda>c. if c = CHR 0x0A then CHR '' '' else c) s"

text \<open>\<open>re.sub(r'\s+', ' ', s)\<close>: every maximal run of whitespace becomes one space.\<close>

function collapse_spaces :: "string \<Rightarrow> string" where
  "collapse_spaces [] = []"
| "collapse_spaces (c # cs) =
     (if is_space c then CHR '' '' # collapse_spaces (dropWhile is_space cs)
      else c # collapse_spaces cs)"
  by pat_completeness auto
termination
  by (relation "measure length") (auto simp: le_imp_less_Suc length_dropWhile_le)

text \<open>\<open>s.strip()\<close>: whitespace is removed at both ends.\<close>

definition strip :: "string \<Rightarrow> string" where
  "strip s = rev (dropWhile is_space (rev (dropWhile is_space s)))"

subsection \<open>The single-item pipeline\<close>

text \<open>
  \<open>cleanup_single(tweet)\<close>, statement by statement. \<open>removal_steps\<close> names its first four
  statements (mentions, URLs, the \<open>'RT : '\<close> prefix, hashes), which only delete characters.
\<close>

definition cleanup_single :: "string \<Rightarrow> string" where
  "cleanup_single tweet =
     (let cleaned_tweet = sub_mention tweet;
          cleaned_tweet = sub_url cleaned_tweet;
          cleaned_tweet = (if prefix ''RT : '' cleaned_tweet then drop 5 cleaned_tweet
                           else cleaned_tweet);
          cleaned_tweet = sub_hash cleaned_tweet;
          cleaned_tweet = replace_newline cleaned_tweet;
          cleaned_tweet = strip (collapse_spaces cleaned_tweet)
      in cleaned_tweet)"


definition removal_steps :: "string \<Rightarrow> string" where
  "removal_steps s =
     sub_hash (let t = sub_url (sub_mention s) in if prefix ''RT : '' t then drop 5 t else t)"

text \<open>
  A string is single-spaced when its only whitespace characters are spaces, none of them
  followed by another whitespace character.
\<close>

fun single_spaced :: "string \<Rightarrow> bool" where
  "single_spaced [] = True"
| "single_spaced [c] = (is_space c \<longrightarrow> c = CHR '' '')"
| "single_spaced (c # d # cs) =
     ((is_space c \<longrightarrow> c = CHR '' '' \<and> \<not> is_space d) \<and> single_spaced (d # cs))"

section \<open>Dates (database.py)\<close>

subsection \<open>\<open>datetime.strptime(s, '%Y%m%d')\<close>\<close>

text \<open>
  \<open>strptime\<close> compiles the format into the regular expression
  \<^verbatim>\<open>(?P<Y>\d\d\d\d)(?P<m>1[0-2]|0[1-9]|[1-9])(?P<d>3[0-1]|[1-2]\d|0[1-9]|[1-9]| [1-9])\<close>,
  matches it at the start of the string, fails if the match does not reach the end of the
  string, and then builds a date, which fails if the year is 0 or the day does not exist in
  the month. Each group is modelled as the list of its possible matches, in the order in
  which the backtracking matcher tries them, each with the value read and the rest of the
  string; the match found is the first one of the combined list.
\<close>

definition char_between :: "char \<Rightarrow> char \<Rightarrow> char \<Rightarrow> bool" where
  "char_between lo hi c \<longleftrightarrow> (of_char lo :: nat) \<le> of_char c \<and> (of_char c :: nat) \<le> of_char hi"

definition is_digit :: "char \<Rightarrow> bool" where
  "is_digit c = char_between (CHR ''0'') (CHR ''9'') c"

definition digit_val :: "char \<Rightarrow> nat" where
  "digit_val c = of_char c - of_char (CHR ''0'')"

fun re_Y :: "string \<Rightarrow> (nat \<times> string) list" where
  "re_Y (a # b # c # d # rest) =
     (if is_digit a \<and> is_digit b \<and> is_digit c \<and> is_digit d
      then [(1000 * digit_val a + 100 * digit_val b + 10 * digit_val c + digit_val d, rest)]
      else [])"
| "re_Y _ = []"

fun two_chars :: "(char \<Rightarrow> bool) \<Rightarrow> (char \<Rightarrow> bool) \<Rightarrow> string \<Rightarrow> (nat \<times> string) list" where
  "two_chars P Q (a # b # rest) =
     (if P a \<and> Q b then [(10 * digit_val a + digit_val b, rest)] else [])"
| "two_chars P Q _ = []"

fun one_char :: "(char \<Rightarrow> bool) \<Rightarrow> string \<Rightarrow> (nat \<times> string) list" where
  "one_char P (a # rest) = (if P a then [(digit_val a, rest)] else [])"
| "one_char P _ = []"

fun space_digit :: "string \<Rightarrow> (nat \<times> string) list" where
  "space_digit (a # b # rest) =
     (if a = CHR '' '' \<and> char_between (CHR ''1'') (CHR ''9'') b then [(digit_val b, rest)] else [])"
| "space_digit _ = []"

definition re_m :: "string \<Rightarrow> (nat \<times> string) list" where
  "re_m s =
     two_chars (\<lambda>c. c = CHR ''1'') (char_between (CHR ''0'') (CHR ''2'')) s
     @ two_chars (\<lambda>c. c = CHR ''0'') (char_between (CHR ''1'') (CHR ''9'')) s
     @ one_char (char_between (CHR ''1'') (CHR ''9'')) s"

definition re_d :: "string \<Rightarrow> (nat \<times> string) list" where
  "re_d s =
     two_chars (\<lambda>c. c = CHR ''3'') (char_between (CHR ''0'') (CHR ''1'')) s
     @ two_chars (char_between (CHR ''1'') (CHR ''2'')) is_digit s
     @ two_chars (\<lambda>c. c = CHR ''0'') (char_between (CHR ''1'') (CHR ''9'')) s
     @ one_char (char_between (CHR ''1'') (CHR ''9'')) s
     @ space_digit s"

definition format_regex_match :: "string \<Rightarrow> (nat \<times> nat \<times> nat \<times> string) list" where
  "format_regex_match s =
     concat (map (\<lambda>(y, r1).
       concat (map (\<lambda>(m, r2).
         map (\<lambda>(d, r3). (y, m, d, r3)) (re_d r2)) (re_m r1))) (re_Y s))"

definition is_leap :: "nat \<Rightarrow> bool" where
  "is_leap y \<longleftrightarrow> y mod 4 = 0 \<and> (y mod 100 \<noteq> 0 \<or> y mod 400 = 0)"

definition days_in_month :: "nat \<Rightarrow> nat \<Rightarrow> nat" where
  "days_in_month y m =
     (if m = 2 then (if is_leap y then 29 else 28)
      else if m = 4 \<or> m = 6 \<or> m = 9 \<or> m = 11 then 30 else 31)"

definition strptime_Ymd :: "string \<Rightarrow> (nat \<times> nat \<times> nat) option" where
  "strptime_Ymd s =
     (case format_regex_match s of
        [] \<Rightarrow> None
      | (y, m, d, rest) # _ \<Rightarrow>
          if rest \<noteq> [] then None
          else if y < 1 \<or> days_in_month y m < d then None
          else Some (y, m, d))"

subsection \<open>Calendar dates in \<open>YYYYMMDD\<close> form\<close>

text \<open>
  The specification's notion, stated without the parser: eight digits, of which the first
  four are a year of the calendar of \<open>datetime\<close> (year 1 or later), the next two a month
  from 01 to 12 and the last two a day that exists in that month.
\<close>

definition decimal :: "string \<Rightarrow> nat" where
  "decimal s = foldl (\<lambda>n c. 10 * n + digit_val c) 0 s"

definition eight_digits :: "string \<Rightarrow> bool" where
  "eight_digits s \<longleftrightarrow> length s = 8 \<and> list_all is_digit s"

definition is_calendar_date :: "string \<Rightarrow> bool" where
  "is_calendar_date s \<longleftrightarrow>
     eight_digits s \<and>
     (let y = decimal (take 4 s); m = decimal (take 2 (drop 4 s)); d = decimal (drop 6 s)
      in 1 \<le> y \<and> 1 \<le> m \<and> m \<le> 12 \<and> 1 \<le> d \<and> d \<le> days_in_month y m)"


section \<open>The persistent store (database.py)\<close>

text \<open>
  A row of the table \<open>entries\<close>; \<open>scores\<close> and \<open>embedding\<close> are the JSON texts that the
  table holds. The store is the list of its rows in rowid order.
\<close>

record entry =
  e_id :: int
  e_text :: string
  e_cleaned_text :: string
  e_scores :: string
  e_sentiment :: string
  e_date :: string
  e_cleaned_date :: string
  e_embedding :: string

type_synonym store = "entry list"

subsection \<open>Keyword search\<close>

text \<open>
  The pattern matching of SQLite's \<open>LIKE\<close>, as \<open>like pattern text\<close>: \<open>%\<close> matches any run
  of characters, \<open>_\<close> any one character, and any other character matches itself, upper
  and lower case of the ASCII letters being the same. No escape character is set.
\<close>

definition ascii_lower :: "char \<Rightarrow> char" where
  "ascii_lower c =
     (if char_between (CHR ''A'') (CHR ''Z'') c then char_of (of_char c + (32::nat)) else c)"

fun like :: "string \<Rightarrow> string \<Rightarrow> bool" where
  "like [] t = (t = [])"
| "like (p # ps) [] = (p = CHR ''%'' \<and> like ps [])"
| "like (p # ps) (c # cs) =
     (if p = CHR ''%'' then like ps (c # cs) \<or> like (p # ps) cs
      else if p = CHR ''_'' then like ps cs
      else ascii_lower p = ascii_lower c \<and> like ps cs)"

text \<open>
  SQLite reads the pattern and the text as strings that end at the first NUL character
  (\<open>c_string\<close>), and refuses a pattern of more than 50000 bytes in UTF-8, in which a
  code point from 128 to 255 takes two bytes (\<open>utf8_length\<close>). The check is made when the
  operator is evaluated on a row, so a query on an empty table does not fail.
\<close>

definition c_string :: "string \<Rightarrow> string" where
  "c_string s = takeWhile (\<lambda>c. c \<noteq> CHR 0x00) s"

definition utf8_length :: "string \<Rightarrow> nat" where
  "utf8_length s = sum_list (map (\<lambda>c. if (of_char c :: nat) < 128 then 1 else 2) s)"

text \<open>
  \<open>search_tweets_by_keyword(conn, keyword)\<close>: the pattern is the keyword between two
  \<open>%\<close>, and the rows are returned in the order of the table.
\<close>

definition search_tweets_by_keyword :: "store \<Rightarrow> string \<Rightarrow> error + (int \<times> string) list" where
  "search_tweets_by_keyword conn keyword =
     (let pattern = ''%'' @ keyword @ ''%''
      in if conn \<noteq> [] \<and> utf8_length pattern > 50000 then Inl OperationalError
         else Inr (map (\<lambda>row. (e_id row, e_text row))
                    (filter (\<lambda>row. like (c_string pattern) (c_string (e_cleaned_text row)))
                       conn)))"

text \<open>
  The specification's notion of a case-insensitive substring, for the case folding that
  \<open>LIKE\<close> has: the folded keyword occurs as a block in the folded text.
\<close>

definition contains_ignoring_ascii_case :: "string \<Rightarrow> string \<Rightarrow> bool" where
  "contains_ignoring_ascii_case keyword t \<longleftrightarrow>
     sublist (map ascii_lower keyword) (map ascii_lower t)"

subsection \<open>Ingestion\<close>

text \<open>
  \<open>add_entries(conn, entries)\<close> inserts the entries one by one and collects
  \<open>cur.lastrowid\<close>. The key is \<open>INTEGER PRIMARY KEY AUTOINCREMENT\<close> and no row is ever
  deleted, so the id given to a new row is one more than the largest id in the table, and 1
  in an empty table.
\<close>

type_synonym new_entry = "string \<times> string \<times> string \<times> string \<times> string \<times> string \<times> string"

definition insert_entry :: "store \<Rightarrow> new_entry \<Rightarrow> store \<times> int" where
  "insert_entry conn entry =
     (case entry of (t, ct, sc, se, d, cd, em) \<Rightarrow>
        let lastrowid = fold max (map e_id conn) 0 + 1
        in (conn @ [\<lparr>e_id = lastrowid, e_text = t, e_cleaned_text = ct, e_scores = sc,
                      e_sentiment = se, e_date = d, e_cleaned_date = cd, e_embedding = em\<rparr>],
            lastrowid))"

fun add_entries :: "store \<Rightarrow> new_entry list \<Rightarrow> store \<times> int list" where
  "add_entries conn [] = (conn, [])"
| "add_entries conn (entry # entries) =
     (let (conn1, lastrowid) = insert_entry conn entry;
          (conn2, ids) = add_entries conn1 entries
      in (conn2, lastrowid # ids))"

subsection \<open>Random entry\<close>

text \<open>
  \<open>get_random_entry(conn)\<close>. The parameters are \<open>json.loads\<close>, which fails on a text that
  is not JSON, and \<open>random.randint\<close>. The first query counts the rows; the second looks the
  drawn id up, and \<open>fetchone()\<close> is \<open>None\<close> when no row has it.
\<close>

definition get_random_entry ::
  "(string \<Rightarrow> 'j option) \<Rightarrow> (int \<Rightarrow> int \<Rightarrow> int) \<Rightarrow> store
     \<Rightarrow> error + (int \<times> string \<times> 'j \<times> string) option" where
  "get_random_entry json_loads randint conn =
     (let count = int (length conn)
      in if count = 0 then Inr None
         else let random_id = randint 1 count
              in case find (\<lambda>row. e_id row = random_id) conn of
                   None \<Rightarrow> Inr None
                 | Some entry \<Rightarrow>
                     (case json_loads (e_scores entry) of
                        None \<Rightarrow> Inl JSONDecodeError
                      | Some sc \<Rightarrow> Inr (Some (e_id entry, e_text entry, sc, e_sentiment entry))))"

subsection \<open>Filter by date\<close>

text \<open>
  \<open>filter_entries_by_date(conn, start_date, end_date)\<close>. Both arguments are parsed first,
  and a failure of either parse is raised as the function's own \<open>ValueError\<close>. The query
  compares the texts themselves (\<open>cleaned_date BETWEEN ? AND ?\<close>), which for the collation
  of the column is the lexicographic order of the characters; \<open>sorted\<close> is stable and
  compares strings in the same order.
\<close>

definition filter_entries_by_date ::
  "(string \<Rightarrow> 'j option) \<Rightarrow> store \<Rightarrow> string \<Rightarrow> string
     \<Rightarrow> error + (int \<times> string \<times> 'j \<times> string \<times> string) list" where
  "filter_entries_by_date json_loads conn start_date end_date =
     (case (strptime_Ymd start_date, strptime_Ymd end_date) of
        (Some start_date_dt, Some end_date_dt) \<Rightarrow>
          (let rows = filter (\<lambda>row. start_date \<le> e_cleaned_date row
                                     \<and> e_cleaned_date row \<le> end_date) conn
           in case those (map (\<lambda>row. map_option
                                 (\<lambda>sc. (e_id row, e_text row, sc, e_sentiment row, e_cleaned_date row))
                                 (json_loads (e_scores row))) rows) of
                None \<Rightarrow> Inl JSONDecodeError
              | Some rows \<Rightarrow> Inr (sort_key (\<lambda>(i, t, sc, se, d). d) rows))
      | _ \<Rightarrow> Inl InvalidDateFormat)"

section \<open>Similarity search (similarity.py)\<close>

text \<open>
  Embeddings are lists of numbers. \<open>exact_cosine\<close> is the cosine similarity of the
  specification: the cosine of the angle between two vectors, a real number (0 when one of
  them is the zero vector). It is not what the code computes: the library's
  \<open>cosine_similarity\<close> works in double arithmetic, and its result for the query and one
  row is the parameter \<open>cosine\<close> of the search below.
\<close>

definition dot :: "real list \<Rightarrow> real list \<Rightarrow> real" where
  "dot xs ys = sum_list (map2 (*) xs ys)"

definition exact_cosine :: "real list \<Rightarrow> real list \<Rightarrow> real" where
  "exact_cosine x y = dot x y / (sqrt (dot x x) * sqrt (dot y y))"

text \<open>
  \<open>df.nlargest(n, 'similarity')\<close> of pandas with its default \<open>keep='first'\<close>: the first
  \<open>n\<close> rows in descending order of the column, rows of equal value in their original
  order; no row for \<open>n\<close> below 1.
\<close>

definition nlargest :: "int \<Rightarrow> ('a \<Rightarrow> real) \<Rightarrow> 'a list \<Rightarrow> 'a list" where
  "nlargest n key rows = take (nat n) (sort_key (\<lambda>row. - key row) rows)"

text \<open>
  \<open>get_top_n_similar_texts(df, input_text, top_n, model)\<close>. The data frame is the list of
  its rows (text, embedding); \<open>encode\<close> is \<open>model.encode\<close> and \<open>cosine\<close> is the value
  that the library's \<open>cosine_similarity\<close> computes for the query and one row. \<open>np.vstack\<close> raises on an empty
  frame and on rows of different lengths, and \<open>cosine_similarity\<close> raises when the query
  has another dimension than the rows or no dimension at all.
\<close>

definition get_top_n_similar_texts ::
  "(string \<Rightarrow> real list) \<Rightarrow> (real list \<Rightarrow> real list \<Rightarrow> real)
     \<Rightarrow> (string \<times> real list) list \<Rightarrow> string \<Rightarrow> int \<Rightarrow> error + string list" where
  "get_top_n_similar_texts encode cosine df input_text top_n =
     (let input_embedding = encode input_text;
          embeddings = map snd df
      in if df = [] \<or> (\<exists>e\<in>set embeddings. length e \<noteq> length (hd embeddings))
         then Inl ShapeError
         else if input_embedding = [] \<or> length (hd embeddings) \<noteq> length input_embedding
         then Inl ShapeError
         else let similarities = map (cosine input_embedding) embeddings;
                  df = zip df similarities
              in Inr (map (\<lambda>row. fst (fst row)) (nlargest top_n snd df)))"

section \<open>Request handler for the most similar texts (main.py)\<close>

text \<open>
  \<open>top_n_similar_texts(id, top_n)\<close>: the parameter \<open>top_n\<close> is declared \<open>ge=1\<close>; the row
  of the given id is looked up (404 if there is none); the candidates are the rows selected
  by \<open>WHERE id != ?\<close>, their embeddings parsed by \<open>json.loads\<close>; the query text is the
  cleaned text of the row looked up.
\<close>

definition top_n_similar_texts ::
  "(string \<Rightarrow> real list option) \<Rightarrow> (string \<Rightarrow> real list)
     \<Rightarrow> (real list \<Rightarrow> real list \<Rightarrow> real) \<Rightarrow> store \<Rightarrow> int \<Rightarrow> int \<Rightarrow> error + string list" where
  "top_n_similar_texts json_loads encode cosine conn query_id top_n =
     (if top_n < 1 then Inl ValidationError
      else case find (\<lambda>row. e_id row = query_id) conn of
        None \<Rightarrow> Inl NotFound
      | Some row \<Rightarrow>
          (let text_to_compare = e_cleaned_text row;
               all_texts = map (\<lambda>row. (e_text row, e_embedding row))
                             (filter (\<lambda>row. e_id row \<noteq> query_id) conn)
           in case those (map (\<lambda>(t, e). map_option (Pair t) (json_loads e)) all_texts) of
                None \<Rightarrow> Inl JSONDecodeError
              | Some df \<Rightarrow> get_top_n_similar_texts encode cosine df text_to_compare top_n))"

section \<open>Scoring paths (vader.py)\<close>

text \<open>
  \<open>polarity_scores\<close> is the method of that name of the VADER analyzer, and \<open>json_dumps\<close> is
  \<open>json.dumps\<close>. \<open>vader_analyze_tweet\<close> cleans the tweet, scores the cleaned text and returns
  the tweet, the scores and the label. \<open>vader_analyze_dataframe\<close> reads the column \<open>text\<close>
  of the frame, scores each text as it is, labels the scores and stores the scores as JSON;
  the frame is modelled by that column, and the result lists, per row, the text, the
  stored scores and the label. \<open>apply_all\<close> is \<open>Series.apply\<close> for a function that may
  raise.
\<close>

definition vader_analyze_tweet ::
  "(string \<Rightarrow> scores) \<Rightarrow> string \<Rightarrow> error + (string \<times> scores \<times> string)" where
  "vader_analyze_tweet polarity_scores tweet =
     (let cleaned_tweet = cleanup_single tweet;
          score = polarity_scores cleaned_tweet
      in case classify_sentiment score of
           Inl e \<Rightarrow> Inl e
         | Inr sentiment \<Rightarrow> Inr (tweet, score, sentiment))"

fun apply_all :: "('a \<Rightarrow> error + 'b) \<Rightarrow> 'a list \<Rightarrow> error + 'b list" where
  "apply_all f [] = Inr []"
| "apply_all f (x # xs) =
     (case f x of
        Inl e \<Rightarrow> Inl e
      | Inr y \<Rightarrow> (case apply_all f xs of Inl e \<Rightarrow> Inl e | Inr ys \<Rightarrow> Inr (y # ys)))"

definition vader_analyze_dataframe ::
  "(string \<Rightarrow> scores) \<Rightarrow> (scores \<Rightarrow> string) \<Rightarrow> string list
     \<Rightarrow> error + (string \<times> string \<times> string) list" where
  "vader_analyze_dataframe polarity_scores json_dumps df =
     (let scores = map (\<lambda>text. polarity_scores text) df
      in case apply_all (\<lambda>score. classify_sentiment score) scores of
           Inl e \<Rightarrow> Inl e
         | Inr sentiment \<Rightarrow> Inr (zip df (zip (map json_dumps scores) sentiment)))"

section \<open>Properties\<close>

subsection \<open>Sentiment label\<close>

text \<open>
  C2. For every scores mapping that holds a compound score, the label is determined by
  that score alone: at least 0.05 gives positive, at most -0.05 gives negative, anything in
  between gives neutral. The two thresholds are inclusive, and 0.0 is neutral.
\<close>

theorem classify_sentiment_thresholds:
  "score ''compound'' = Some c \<Longrightarrow>
     classify_sentiment score =
       Inr (if c \<ge> 0.05 then ''positive'' else if c \<le> - 0.05 then ''negative'' else ''neutral'')
     \<and> (c = 0.05 \<longrightarrow> classify_sentiment score = Inr ''positive'')
     \<and> (c = - 0.05 \<longrightarrow> classify_sentiment score = Inr ''negative'')
     \<and> (c = 0.0 \<longrightarrow> classify_sentiment score = Inr ''neutral'')"
  by (simp add: classify_sentiment_def)

theorem classify_sentiment_thresholds_witness:
  "[''compound'' \<mapsto> (0.05::real)] ''compound'' = Some 0.05
   \<and> classify_sentiment [''compound'' \<mapsto> 0.05] = Inr ''positive''"
  using classify_sentiment_thresholds [of "[''compound'' \<mapsto> 0.05]" "0.05"] by simp

subsection \<open>Text normalizer: the steps only shorten, the output is single-spaced\<close>

lemma cleanup_single_stages:
  "cleanup_single x = strip (collapse_spaces (replace_newline (removal_steps x)))"
  by (simp add: cleanup_single_def removal_steps_def Let_def)

lemma sub_mention_shrinks:
  "length (sub_mention s) \<le> length s \<and> (length (sub_mention s) = length s \<longrightarrow> sub_mention s = s)"
proof (induction s rule: sub_mention.induct)
  case 1
  show ?case by simp
next
  case (2 c cs)
  show ?case
  proof (cases "c = CHR ''@'' \<and> cs \<noteq> [] \<and> is_word (hd cs)")
    case True
    have "length (sub_mention (dropWhile is_word cs)) \<le> length (dropWhile is_word cs)"
      using 2(1) True by simp
    also have "\<dots> \<le> length cs" by (rule length_dropWhile_le)
    finally show ?thesis using True by simp
  next
    case False
    then show ?thesis using 2(2) by auto
  qed
qed

lemma match_url_shorter: "match_url s = Some rest \<Longrightarrow> length rest < length s"
proof -
  assume m: "match_url s = Some rest"
  have "length (dropWhile (\<lambda>c. \<not> is_space c) (drop n s)) < length s"
    if "drop n s \<noteq> []" "0 < n" for n
  proof -
    have "length (dropWhile (\<lambda>c. \<not> is_space c) (drop n s)) \<le> length (drop n s)"
      by (rule length_dropWhile_le)
    also have "\<dots> < length s" using that by simp
    finally show ?thesis .
  qed
  from this [of 8] this [of 7] m show ?thesis
    by (auto simp: match_url_def split: if_splits)
qed

lemma sub_url_shrinks:
  "length (sub_url s) \<le> length s \<and> (length (sub_url s) = length s \<longrightarrow> sub_url s = s)"
proof (induction s rule: sub_url.induct)
  case 1
  show ?case by simp
next
  case (2 c cs)
  show ?case
  proof (cases "match_url (c # cs)")
    case None
    then show ?thesis using 2 by auto
  next
    case (Some rest)
    have "length (sub_url rest) \<le> length rest" using 2 Some by simp
    also have "\<dots> < length (c # cs)" using Some by (rule match_url_shorter)
    finally show ?thesis using Some by simp
  qed
qed

lemma sub_hash_from_shrinks:
  "length (sub_hash_from w s) \<le> length s
   \<and> (length (sub_hash_from w s) = length s \<longrightarrow> sub_hash_from w s = s)"
proof (induction s arbitrary: w)
  case Nil
  show ?case by simp
next
  case (Cons c cs)
  from Cons [of False] Cons [of "is_word c"] show ?case by auto
qed

lemma removal_steps_shrinks:
  "length (removal_steps s) \<le> length s \<and> (length (removal_steps s) = length s \<longrightarrow> removal_steps s = s)"
proof -
  define a where "a = sub_mention s"
  define b where "b = sub_url a"
  define c where "c = (if prefix ''RT : '' b then drop 5 b else b)"
  have r: "removal_steps s = sub_hash_from False c"
    by (simp add: removal_steps_def sub_hash_def a_def b_def c_def Let_def)
  have 1: "length a \<le> length s \<and> (length a = length s \<longrightarrow> a = s)"
    unfolding a_def by (rule sub_mention_shrinks)
  have 2: "length b \<le> length a \<and> (length b = length a \<longrightarrow> b = a)"
    unfolding b_def by (rule sub_url_shrinks)
  have 3: "length c \<le> length b \<and> (length c = length b \<longrightarrow> c = b)"
    unfolding c_def by (auto simp: prefix_def)
  have 4: "length (sub_hash_from False c) \<le> length c
     \<and> (length (sub_hash_from False c) = length c \<longrightarrow> sub_hash_from False c = c)"
    by (rule sub_hash_from_shrinks)
  from 1 2 3 4 show ?thesis unfolding r
    by (metis le_antisym le_trans)
qed

lemma length_collapse_spaces: "length (collapse_spaces s) \<le> length s"
proof (induction s rule: collapse_spaces.induct)
  case 1
  show ?case by simp
next
  case (2 c cs)
  show ?case
  proof (cases "is_space c")
    case True
    have "length (collapse_spaces (dropWhile is_space cs)) \<le> length (dropWhile is_space cs)"
      using 2(1) True by simp
    also have "\<dots> \<le> length cs" by (rule length_dropWhile_le)
    finally show ?thesis using True by simp
  next
    case False
    then show ?thesis using 2(2) by simp
  qed
qed

lemma length_strip: "length (strip s) \<le> length s"
proof -
  have "length (dropWhile is_space (rev (dropWhile is_space s))) \<le> length (rev (dropWhile is_space s))"
    by (rule length_dropWhile_le)
  then have "length (strip s) \<le> length (rev (dropWhile is_space s))"
    unfolding strip_def by simp
  also have "\<dots> \<le> length s" by (simp add: length_dropWhile_le)
  finally show ?thesis .
qed

lemma length_whitespace_steps:
  "length (strip (collapse_spaces (replace_newline s))) \<le> length s"
proof -
  have "length (strip (collapse_spaces (replace_newline s))) \<le> length (collapse_spaces (replace_newline s))"
    by (rule length_strip)
  also have "\<dots> \<le> length (replace_newline s)" by (rule length_collapse_spaces)
  also have "\<dots> = length s" by (simp add: replace_newline_def)
  finally show ?thesis .
qed

lemma collapse_spaces_nonspace_hd:
  "s \<noteq> [] \<Longrightarrow> \<not> is_space (hd s) \<Longrightarrow> collapse_spaces s \<noteq> [] \<and> hd (collapse_spaces s) = hd s"
  by (cases s) auto

lemma single_spaced_Cons:
  "single_spaced (c # s) \<longleftrightarrow>
     (is_space c \<longrightarrow> c = CHR '' '' \<and> (s = [] \<or> \<not> is_space (hd s))) \<and> single_spaced s"
  by (cases s) auto

lemma single_spaced_collapse: "single_spaced (collapse_spaces s)"
proof (induction s rule: collapse_spaces.induct)
  case 1
  show ?case by simp
next
  case (2 c cs)
  show ?case
  proof (cases "is_space c")
    case True
    let ?r = "dropWhile is_space cs"
    have ih: "single_spaced (collapse_spaces ?r)" using 2(1) True by simp
    have "collapse_spaces ?r = [] \<or> \<not> is_space (hd (collapse_spaces ?r))"
    proof (cases "?r = []")
      case True
      then have "collapse_spaces ?r = []" by (simp only: collapse_spaces.simps)
      then show ?thesis by (rule disjI1)
    next
      case False
      then have "\<not> is_space (hd ?r)" by (rule hd_dropWhile)
      with False show ?thesis using collapse_spaces_nonspace_hd by metis
    qed
    with ih True show ?thesis by (simp add: single_spaced_Cons)
  next
    case False
    then show ?thesis using 2(2) by (simp add: single_spaced_Cons)
  qed
qed

lemma single_spaced_append:
  "single_spaced (xs @ ys) \<Longrightarrow> single_spaced xs \<and> single_spaced ys"
proof (induction xs)
  case Nil
  then show ?case by simp
next
  case (Cons c xs)
  then show ?case by (cases xs) (auto simp: single_spaced_Cons)
qed

lemma single_spaced_fixes_collapse: "single_spaced s \<Longrightarrow> collapse_spaces s = s"
proof (induction s rule: collapse_spaces.induct)
  case 1
  show ?case by simp
next
  case (2 c cs)
  show ?case
  proof (cases "is_space c")
    case True
    with 2(3) have c: "c = CHR '' ''" and h: "cs = [] \<or> \<not> is_space (hd cs)" and s: "single_spaced cs"
      by (auto simp: single_spaced_Cons)
    from h have d: "dropWhile is_space cs = cs" by (cases cs) auto
    with 2(1) True s have "collapse_spaces cs = cs" by simp
    with True c d show ?thesis by simp
  next
    case False
    with 2(2,3) show ?thesis by (simp add: single_spaced_Cons)
  qed
qed

lemma is_space_newline: "is_space (CHR 0x0A)"
  by (simp add: is_space_def)

lemma single_spaced_no_newline: "single_spaced s \<Longrightarrow> CHR 0x0A \<notin> set s"
proof (induction s)
  case Nil
  show ?case by simp
next
  case (Cons c s)
  then show ?case using is_space_newline by (auto simp: single_spaced_Cons)
qed

lemma single_spaced_fixes_newline: "single_spaced s \<Longrightarrow> replace_newline s = s"
  unfolding replace_newline_def using single_spaced_no_newline [of s] by (intro map_idI) auto

lemma strip_infix: "\<exists>a b. s = a @ strip s @ b"
proof -
  let ?u = "dropWhile is_space s"
  have 1: "s = takeWhile is_space s @ ?u" by simp
  have "rev (takeWhile is_space (rev ?u) @ dropWhile is_space (rev ?u)) = rev (rev ?u)"
    by (simp only: takeWhile_dropWhile_id)
  then have 2: "?u = strip s @ rev (takeWhile is_space (rev ?u))"
    by (simp only: rev_append rev_rev_ident strip_def)
  from 1 2 show ?thesis by metis
qed

lemma strip_fixed:
  assumes "s = [] \<or> (\<not> is_space (hd s) \<and> \<not> is_space (last s))"
  shows "strip s = s"
proof (cases "s = []")
  case True
  then show ?thesis by (simp add: strip_def)
next
  case False
  with assms have h: "\<not> is_space (hd s)" and l: "\<not> is_space (last s)" by auto
  from h False have 1: "dropWhile is_space s = s" by (cases s) auto
  from l False have "\<not> is_space (hd (rev s))" by (simp add: hd_rev)
  with False have 2: "dropWhile is_space (rev s) = rev s" by (cases "rev s") auto
  show ?thesis by (simp add: strip_def 1 2)
qed

lemma strip_ends: "strip s = [] \<or> (\<not> is_space (hd (strip s)) \<and> \<not> is_space (last (strip s)))"
proof (cases "strip s = []")
  case True
  then show ?thesis by simp
next
  case False
  let ?u = "dropWhile is_space s"
  let ?v = "dropWhile is_space (rev ?u)"
  have sv: "strip s = rev ?v" by (simp add: strip_def)
  with False have v: "?v \<noteq> []" by simp
  then have "\<not> is_space (hd ?v)" by (rule hd_dropWhile)
  with v have l: "\<not> is_space (last (strip s))" by (simp add: sv last_rev)
  have u: "?u \<noteq> []"
  proof
    assume "?u = []"
    then have "?v = []" by (simp only: rev.simps dropWhile.simps)
    with v show False by simp
  qed
  then have hu: "\<not> is_space (hd ?u)" by (rule hd_dropWhile)
  have "rev (takeWhile is_space (rev ?u) @ ?v) = rev (rev ?u)"
    by (simp only: takeWhile_dropWhile_id)
  then have "?u = rev ?v @ rev (takeWhile is_space (rev ?u))"
    by (simp only: rev_append rev_rev_ident)
  then have "hd ?u = hd (rev ?v)" using v by (metis hd_append2 rev_is_Nil_conv)
  with hu have "\<not> is_space (hd (strip s))" by (simp add: sv)
  with l show ?thesis by simp
qed

lemma strip_idem: "strip (strip s) = strip s"
  by (rule strip_fixed) (rule strip_ends)

lemma cleanup_single_single_spaced: "single_spaced (cleanup_single x)"
proof -
  let ?t = "collapse_spaces (replace_newline (removal_steps x))"
  obtain a b where "?t = a @ strip ?t @ b" using strip_infix by blast
  moreover have "single_spaced ?t" by (rule single_spaced_collapse)
  ultimately have "single_spaced (strip ?t)"
    using single_spaced_append by metis
  then show ?thesis by (simp add: cleanup_single_stages)
qed

lemma whitespace_steps_fix_output:
  "strip (collapse_spaces (replace_newline (cleanup_single x))) = cleanup_single x"
proof -
  have "strip (cleanup_single x) = cleanup_single x"
    by (simp add: cleanup_single_stages strip_idem)
  then show ?thesis
    by (simp add: single_spaced_fixes_newline single_spaced_fixes_collapse cleanup_single_single_spaced)
qed

text \<open>
  C3, as stated, fails: normalizing twice is not normalizing once. The \<open>'RT : '\<close> prefix
  is removed once, so a second prefix behind it survives the first pass and falls to the
  second.
\<close>

theorem cleanup_single_not_idempotent:
  "cleanup_single (cleanup_single ''RT : RT : a'') \<noteq> cleanup_single ''RT : RT : a''"
  by code_simp

text \<open>
  The second pass returns the output of the first exactly when the removal steps leave
  that output as it is; and they do when it holds none of the characters they look for.
\<close>

lemma cleanup_single_fixed_point:
  "cleanup_single (cleanup_single x) = cleanup_single x
   \<longleftrightarrow> removal_steps (cleanup_single x) = cleanup_single x"
proof
  assume "removal_steps (cleanup_single x) = cleanup_single x"
  then show "cleanup_single (cleanup_single x) = cleanup_single x"
    using whitespace_steps_fix_output [of x] by (simp add: cleanup_single_stages)
next
  assume idem: "cleanup_single (cleanup_single x) = cleanup_single x"
  let ?y = "cleanup_single x"
  have "length ?y = length (strip (collapse_spaces (replace_newline (removal_steps ?y))))"
    using idem by (simp add: cleanup_single_stages)
  also have "\<dots> \<le> length (removal_steps ?y)" by (rule length_whitespace_steps)
  finally have "length (removal_steps ?y) = length ?y"
    using removal_steps_shrinks [of ?y] by simp
  then show "removal_steps ?y = ?y" using removal_steps_shrinks [of ?y] by simp
qed


lemma sub_mention_no_at: "CHR ''@'' \<notin> set s \<Longrightarrow> sub_mention s = s"
  by (induction s) auto

lemma match_url_no_colon: "CHR '':'' \<notin> set s \<Longrightarrow> match_url s = None"
proof -
  assume a: "CHR '':'' \<notin> set s"
  have "\<not> prefix ''https://'' s"
  proof
    assume "prefix ''https://'' s"
    then obtain r where "s = ''https://'' @ r" by (auto simp: prefix_def)
    with a show False by simp
  qed
  moreover have "\<not> prefix ''http://'' s"
  proof
    assume "prefix ''http://'' s"
    then obtain r where "s = ''http://'' @ r" by (auto simp: prefix_def)
    with a show False by simp
  qed
  ultimately show ?thesis by (simp add: match_url_def)
qed

lemma sub_url_no_colon: "CHR '':'' \<notin> set s \<Longrightarrow> sub_url s = s"
proof (induction s)
  case Nil
  show ?case by simp
next
  case (Cons c cs)
  from Cons.prems have "match_url (c # cs) = None" by (rule match_url_no_colon)
  with Cons show ?case by simp
qed

lemma no_rt_prefix: "CHR '':'' \<notin> set s \<Longrightarrow> \<not> prefix ''RT : '' s"
proof
  assume a: "CHR '':'' \<notin> set s" and "prefix ''RT : '' s"
  then obtain r where "s = ''RT : '' @ r" by (auto simp: prefix_def)
  with a show False by simp
qed

lemma sub_hash_from_no_hash: "CHR ''#'' \<notin> set s \<Longrightarrow> sub_hash_from w s = s"
  by (induction s arbitrary: w) auto

lemma removal_steps_nothing_to_remove:
  assumes "CHR ''@'' \<notin> set s" "CHR ''#'' \<notin> set s" "CHR '':'' \<notin> set s"
  shows "removal_steps s = s"
  using assms
  by (simp add: removal_steps_def sub_hash_def sub_mention_no_at sub_url_no_colon
      no_rt_prefix sub_hash_from_no_hash)

text \<open>
  C3, amended. The output of the normalizer is stable under its whitespace steps, so a
  second pass returns the output of the first exactly when the four removal steps
  (mentions, URLs, \<open>'RT : '\<close> prefix, hashes) find nothing to remove in that output; in
  particular it does whenever that output holds no \<open>@\<close>, no \<open>#\<close> and no colon.
\<close>

theorem cleanup_single_idempotent_iff:
  "(cleanup_single (cleanup_single x) = cleanup_single x
      \<longleftrightarrow> removal_steps (cleanup_single x) = cleanup_single x)
   \<and> (CHR ''@'' \<notin> set (cleanup_single x) \<and> CHR ''#'' \<notin> set (cleanup_single x)
        \<and> CHR '':'' \<notin> set (cleanup_single x)
      \<longrightarrow> cleanup_single (cleanup_single x) = cleanup_single x)"
  using cleanup_single_fixed_point [of x] removal_steps_nothing_to_remove [of "cleanup_single x"]
  by blast

theorem cleanup_single_idempotent_iff_witness:
  "CHR ''@'' \<notin> set (cleanup_single ''@you  hello\<newline>world '')
   \<and> CHR ''#'' \<notin> set (cleanup_single ''@you  hello\<newline>world '')
   \<and> CHR '':'' \<notin> set (cleanup_single ''@you  hello\<newline>world '')
   \<and> removal_steps (cleanup_single ''@you  hello\<newline>world '') = cleanup_single ''@you  hello\<newline>world ''
   \<and> cleanup_single (cleanup_single ''@you  hello\<newline>world '') = cleanup_single ''@you  hello\<newline>world ''"
proof -
  have c: "cleanup_single ''@you  hello\<newline>world '' = ''hello world''"
    by code_simp
  have n: "CHR ''@'' \<notin> set (cleanup_single ''@you  hello\<newline>world '')
      \<and> CHR ''#'' \<notin> set (cleanup_single ''@you  hello\<newline>world '')
      \<and> CHR '':'' \<notin> set (cleanup_single ''@you  hello\<newline>world '')"
    unfolding c by simp
  note t = cleanup_single_idempotent_iff [of "''@you  hello\<newline>world ''"]
  from t n have i: "cleanup_single (cleanup_single ''@you  hello\<newline>world '')
      = cleanup_single ''@you  hello\<newline>world ''"
    by blast
  with t have "removal_steps (cleanup_single ''@you  hello\<newline>world '')
      = cleanup_single ''@you  hello\<newline>world ''"
    by blast
  with n i show ?thesis by blast
qed

text \<open>
  C8. The claim is that the hash step removes a \<open>#\<close> exactly when it starts a token. The
  pattern \<open>\b#\<close> does the opposite: it leaves the \<open>#\<close> of \<open>#happy\<close> in place and removes
  the one inside \<open>a#b\<close>, because the word boundary needs a word character in front of
  the \<open>#\<close>.
\<close>

theorem hash_step_keeps_leading_hash:
  "sub_hash ''#happy'' = ''#happy''
   \<and> cleanup_single ''#happy'' = ''#happy''
   \<and> cleanup_single ''so #happy'' = ''so #happy''
   \<and> cleanup_single ''a#b'' = ''ab''"
  by code_simp

subsection \<open>Dates: the parser accepts exactly the calendar dates\<close>

lemma char_eq_code: "(c = d) \<longleftrightarrow> (of_char c :: nat) = of_char d"
  by simp

lemma length8_obtain:
  assumes "length s = 8"
  obtains a b c d e f g h where "s = [a, b, c, d, e, f, g, h]"
proof -
  from assms obtain a s1 where 1: "s = a # s1" "length s1 = 7" by (cases s) auto
  then obtain b s2 where 2: "s1 = b # s2" "length s2 = 6" by (cases s1) auto
  then obtain c s3 where 3: "s2 = c # s3" "length s3 = 5" by (cases s2) auto
  then obtain d s4 where 4: "s3 = d # s4" "length s4 = 4" by (cases s3) auto
  then obtain e s5 where 5: "s4 = e # s5" "length s5 = 3" by (cases s4) auto
  then obtain f s6 where 6: "s5 = f # s6" "length s6 = 2" by (cases s5) auto
  then obtain g s7 where 7: "s6 = g # s7" "length s7 = 1" by (cases s6) auto
  then obtain h s8 where 8: "s7 = h # s8" "length s8 = 0" by (cases s7) auto
  with 1 2 3 4 5 6 7 that show thesis by simp
qed

lemma digit_val_le9: "is_digit c \<Longrightarrow> digit_val c \<le> 9"
  by (auto simp: is_digit_def char_between_def digit_val_def)

lemma re_m_digits:
  assumes "is_digit e" "is_digit f"
  shows "re_m (e # f # r) =
     (if (digit_val e = 1 \<and> digit_val f \<le> 2) \<or> (digit_val e = 0 \<and> 1 \<le> digit_val f)
      then [(10 * digit_val e + digit_val f, r)] else [])
     @ (if 1 \<le> digit_val e then [(digit_val e, f # r)] else [])"
  using assms
  by (auto simp: re_m_def is_digit_def char_between_def digit_val_def char_eq_code)

lemma re_d_digits:
  assumes "is_digit g" "is_digit h"
  shows "re_d (g # h # r) =
     (if 1 \<le> 10 * digit_val g + digit_val h \<and> 10 * digit_val g + digit_val h \<le> 31
      then [(10 * digit_val g + digit_val h, r)] else [])
     @ (if 1 \<le> digit_val g then [(digit_val g, h # r)] else [])"
  using assms
  by (auto simp: re_d_def is_digit_def char_between_def digit_val_def char_eq_code)

lemma strptime_Ymd_digits:
  assumes "is_digit a" "is_digit b" "is_digit c" "is_digit d"
    and "is_digit e" "is_digit f" "is_digit g" "is_digit h"
  shows "strptime_Ymd [a, b, c, d, e, f, g, h] =
     (let y = 1000 * digit_val a + 100 * digit_val b + 10 * digit_val c + digit_val d;
          m = 10 * digit_val e + digit_val f;
          dd = 10 * digit_val g + digit_val h
      in if 1 \<le> y \<and> 1 \<le> m \<and> m \<le> 12 \<and> 1 \<le> dd \<and> dd \<le> days_in_month y m
         then Some (y, m, dd) else None)"
proof -
  have le: "digit_val e \<le> 9" "digit_val f \<le> 9" "digit_val g \<le> 9" "digit_val h \<le> 9"
    using assms by (simp_all add: digit_val_le9)
  have dim: "days_in_month y m \<le> 31" for y m
    by (simp add: days_in_month_def)
  have m: "re_m [e, f, g, h] =
     (if (digit_val e = 1 \<and> digit_val f \<le> 2) \<or> (digit_val e = 0 \<and> 1 \<le> digit_val f)
      then [(10 * digit_val e + digit_val f, [g, h])] else [])
     @ (if 1 \<le> digit_val e then [(digit_val e, [f, g, h])] else [])"
    using assms by (simp only: re_m_digits)
  have d2: "re_d [g, h] =
     (if 1 \<le> 10 * digit_val g + digit_val h \<and> 10 * digit_val g + digit_val h \<le> 31
      then [(10 * digit_val g + digit_val h, [])] else [])
     @ (if 1 \<le> digit_val g then [(digit_val g, [h])] else [])"
    using assms by (simp only: re_d_digits)
  have d3: "re_d [f, g, h] =
     (if 1 \<le> 10 * digit_val f + digit_val g \<and> 10 * digit_val f + digit_val g \<le> 31
      then [(10 * digit_val f + digit_val g, [h])] else [])
     @ (if 1 \<le> digit_val f then [(digit_val f, [g, h])] else [])"
    using assms by (simp only: re_d_digits)
  have y: "re_Y [a, b, c, d, e, f, g, h] =
     [(1000 * digit_val a + 100 * digit_val b + 10 * digit_val c + digit_val d, [e, f, g, h])]"
    using assms by simp
  define Y where "Y = 1000 * digit_val a + 100 * digit_val b + 10 * digit_val c + digit_val d"
  have fm: "format_regex_match [a, b, c, d, e, f, g, h] =
      concat (map (\<lambda>(m, r2). map (\<lambda>(d, r3). (Y, m, d, r3)) (re_d r2)) (re_m [e, f, g, h]))"
    unfolding format_regex_match_def y by (simp add: Y_def)
  show ?thesis
    unfolding strptime_Ymd_def fm m Let_def Y_def [symmetric]
    using le dim [of Y "10 * digit_val e + digit_val f"]
    by (auto simp: d2 d3 split: if_splits)
qed

lemma decimal4: "decimal [a, b, c, d] = 1000 * digit_val a + 100 * digit_val b + 10 * digit_val c + digit_val d"
  by (simp add: decimal_def)

lemma decimal2: "decimal [a, b] = 10 * digit_val a + digit_val b"
  by (simp add: decimal_def)

lemma strptime_Ymd_refines:
  assumes "eight_digits s"
  shows "strptime_Ymd s \<noteq> None \<longleftrightarrow> is_calendar_date s"
proof -
  from assms have "length s = 8" by (simp add: eight_digits_def)
  then obtain a b c d e f g h where s: "s = [a, b, c, d, e, f, g, h]"
    by (rule length8_obtain)
  with assms have dg: "is_digit a" "is_digit b" "is_digit c" "is_digit d"
      "is_digit e" "is_digit f" "is_digit g" "is_digit h"
    by (simp_all add: eight_digits_def)
  show ?thesis
    unfolding s strptime_Ymd_digits [OF dg] is_calendar_date_def
    using assms by (simp add: s decimal4 decimal2 Let_def)
qed

subsection \<open>Keyword search\<close>

lemma like_percent_only: "like ''%'' t"
  by (induction t) auto

lemma like_percent: "like (CHR ''%'' # ps) t \<longleftrightarrow> (\<exists>n\<le>length t. like ps (drop n t))"
proof (induction t)
  case Nil
  show ?case by simp
next
  case (Cons c cs)
  show ?case
  proof
    assume "like (CHR ''%'' # ps) (c # cs)"
    then consider "like ps (c # cs)" | "like (CHR ''%'' # ps) cs" by auto
    then show "\<exists>n\<le>length (c # cs). like ps (drop n (c # cs))"
    proof cases
      case 1
      then have "like ps (drop 0 (c # cs))" by simp
      then show ?thesis by blast
    next
      case 2
      with Cons obtain n where "n \<le> length cs" "like ps (drop n cs)" by auto
      then have "Suc n \<le> length (c # cs)" "like ps (drop (Suc n) (c # cs))" by simp_all
      then show ?thesis by blast
    qed
  next
    assume "\<exists>n\<le>length (c # cs). like ps (drop n (c # cs))"
    then obtain n where n: "n \<le> length (c # cs)" "like ps (drop n (c # cs))" by blast
    show "like (CHR ''%'' # ps) (c # cs)"
    proof (cases n)
      case 0
      with n show ?thesis by simp
    next
      case (Suc k)
      with n have "k \<le> length cs" "like ps (drop k cs)" by simp_all
      with Cons have "like (CHR ''%'' # ps) cs" by blast
      then show ?thesis by simp
    qed
  qed
qed

lemma like_literal_then_percent:
  "CHR ''%'' \<notin> set ps \<Longrightarrow> CHR ''_'' \<notin> set ps \<Longrightarrow>
     like (ps @ ''%'') t \<longleftrightarrow> prefix (map ascii_lower ps) (map ascii_lower t)"
proof (induction ps arbitrary: t)
  case Nil
  show ?case using like_percent_only by simp
next
  case (Cons p ps)
  then have ih: "like (ps @ ''%'') u \<longleftrightarrow> prefix (map ascii_lower ps) (map ascii_lower u)" for u
    by simp
  from Cons.prems have p: "p \<noteq> CHR ''%''" "p \<noteq> CHR ''_''" by auto
  show ?case
  proof (cases t)
    case Nil
    with p show ?thesis by simp
  next
    case (Cons c cs)
    with p ih [of cs] show ?thesis by simp
  qed
qed

lemma like_keyword:
  assumes "CHR ''%'' \<notin> set keyword" "CHR ''_'' \<notin> set keyword"
  shows "like (CHR ''%'' # keyword @ ''%'') t \<longleftrightarrow> contains_ignoring_ascii_case keyword t"
proof -
  have "like (CHR ''%'' # keyword @ ''%'') t \<longleftrightarrow> (\<exists>n\<le>length t. like (keyword @ ''%'') (drop n t))"
    by (rule like_percent)
  also have "\<dots> \<longleftrightarrow> (\<exists>n\<le>length t. prefix (map ascii_lower keyword) (drop n (map ascii_lower t)))"
    using assms by (simp add: like_literal_then_percent drop_map)
  also have "\<dots> \<longleftrightarrow> sublist (map ascii_lower keyword) (map ascii_lower t)"
  proof
    assume "\<exists>n\<le>length t. prefix (map ascii_lower keyword) (drop n (map ascii_lower t))"
    then obtain n where "prefix (map ascii_lower keyword) (drop n (map ascii_lower t))" by blast
    moreover have "suffix (drop n (map ascii_lower t)) (map ascii_lower t)" by (rule suffix_drop)
    ultimately show "sublist (map ascii_lower keyword) (map ascii_lower t)"
      unfolding sublist_altdef' by blast
  next
    assume "sublist (map ascii_lower keyword) (map ascii_lower t)"
    then obtain ys where ys: "suffix ys (map ascii_lower t)" "prefix (map ascii_lower keyword) ys"
      unfolding sublist_altdef' by blast
    from ys(1) obtain zs where zs: "map ascii_lower t = zs @ ys" by (auto simp: suffix_def)
    then have "ys = drop (length zs) (map ascii_lower t)" by simp
    moreover from zs have "length zs \<le> length t"
      by (metis length_append length_map le_add1)
    ultimately show "\<exists>n\<le>length t. prefix (map ascii_lower keyword) (drop n (map ascii_lower t))"
      using ys(2) by auto
  qed
  finally show ?thesis by (simp add: contains_ignoring_ascii_case_def)
qed

lemma c_string_no_nul: "CHR 0x00 \<notin> set s \<Longrightarrow> c_string s = s"
  by (auto simp: c_string_def takeWhile_eq_all_conv)

lemma search_tweets_by_keyword_plain:
  assumes "CHR ''%'' \<notin> set keyword" "CHR ''_'' \<notin> set keyword" "CHR 0x00 \<notin> set keyword"
    and "utf8_length keyword \<le> 49998"
    and "\<forall>row\<in>set conn. CHR 0x00 \<notin> set (e_cleaned_text row)"
  shows "search_tweets_by_keyword conn keyword =
        Inr (map (\<lambda>row. (e_id row, e_text row))
          (filter (\<lambda>row. contains_ignoring_ascii_case keyword (e_cleaned_text row)) conn))"
proof -
  have p: "c_string (''%'' @ keyword @ ''%'') = CHR ''%'' # keyword @ ''%''"
    using assms(3) by (simp add: c_string_no_nul)
  have l: "\<not> utf8_length (''%'' @ keyword @ ''%'') > 50000"
    using assms(4) by (simp add: utf8_length_def)
  have "filter (\<lambda>row. like (CHR ''%'' # keyword @ ''%'') (c_string (e_cleaned_text row))) conn
      = filter (\<lambda>row. contains_ignoring_ascii_case keyword (e_cleaned_text row)) conn"
    using assms(1,2,5) by (intro filter_cong refl) (simp add: c_string_no_nul like_keyword)
  then show ?thesis
    unfolding search_tweets_by_keyword_def Let_def p using l by simp
qed

text \<open>
  C7. The claim is that the search returns exactly the entries whose cleaned text contains
  the keyword, letter case aside, as the docstring says (\<open>tweets that contain the
  keyword\<close>). The keyword is pasted into the \<open>LIKE\<close> pattern as it is, so a \<open>_\<close> in it
  stands for any character: the keyword \<open>_\<close> finds the entry whose cleaned text is \<open>a\<close>,
  which does not contain it. For a keyword without special characters the search does what
  the claim says (lemma \<open>search_tweets_by_keyword_plain\<close>).
\<close>

theorem search_tweets_by_keyword_wildcard:
  "search_tweets_by_keyword
     [\<lparr>e_id = 1, e_text = ''A'', e_cleaned_text = ''a'', e_scores = ''{}'',
       e_sentiment = ''neutral'', e_date = ''Mon Jan 01 00:00:00 +0000 2018'',
       e_cleaned_date = ''20180101'', e_embedding = ''[0.0]''\<rparr>] ''_'' = Inr [(1, ''A'')]
   \<and> \<not> contains_ignoring_ascii_case ''_'' ''a''"
  by (simp add: search_tweets_by_keyword_def contains_ignoring_ascii_case_def sublist_code
      ascii_lower_def char_between_def c_string_def utf8_length_def)

subsection \<open>Random entry\<close>

lemma find_by_id:
  assumes "k \<in> e_id ` set conn"
  shows "\<exists>row\<in>set conn. e_id row = k \<and> find (\<lambda>row. e_id row = k) conn = Some row"
proof (cases "find (\<lambda>row. e_id row = k) conn")
  case None
  with assms show ?thesis by (auto simp: find_None_iff)
next
  case (Some row)
  then have "row \<in> set conn \<and> e_id row = k"
    by (auto simp: find_Some_iff)
  with Some show ?thesis by blast
qed

lemma dense_ids_bij:
  assumes "e_id ` set conn = {1..int (length conn)}"
  shows "bij_betw e_id (set conn) {1..int (length conn)}"
proof -
  have "card (e_id ` set conn) = length conn" by (simp add: assms)
  moreover have "card (set conn) \<le> length conn" by (rule card_length)
  moreover have "card (e_id ` set conn) \<le> card (set conn)" by (simp add: card_image_le)
  ultimately have "card (e_id ` set conn) = card (set conn)" by simp
  then have "inj_on e_id (set conn)" by (simp add: eq_card_imp_inj_on)
  with assms show ?thesis by (simp add: bij_betw_def)
qed

text \<open>
  C1, as stated, fails on a store whose ids have a gap: the draw is over the numbers from 1
  to the row count, and a store that holds only the row with id 2 has count 1, draws 1,
  finds no row, and returns the empty result although it is not empty.
\<close>

theorem get_random_entry_gap:
  "get_random_entry Some (\<lambda>lo hi. lo)
     [\<lparr>e_id = 2, e_text = ''A'', e_cleaned_text = ''a'', e_scores = ''{}'',
       e_sentiment = ''neutral'', e_date = ''Mon Jan 01 00:00:00 +0000 2018'',
       e_cleaned_date = ''20180101'', e_embedding = ''[0.0]''\<rparr>] = Inr None"
  by (simp add: get_random_entry_def)

text \<open>
  C1, amended. For every store whose ids are exactly the numbers from 1 to the row count
  and whose scores are JSON texts, and for every draw that \<open>randint\<close> may make: the result
  is the empty result if and only if the store has no rows; on a store with rows it is the
  row whose id was drawn, never an error; and the ids map the rows one-to-one onto the
  numbers that can be drawn, so a uniform draw selects uniformly among the rows.
\<close>

theorem get_random_entry_dense:
  assumes dense: "e_id ` set conn = {1..int (length conn)}"
    and json: "\<forall>row\<in>set conn. json_loads (e_scores row) \<noteq> None"
    and randint: "\<forall>a b. a \<le> b \<longrightarrow> a \<le> randint a b \<and> randint a b \<le> b"
  shows "(get_random_entry json_loads randint conn = Inr None \<longleftrightarrow> conn = [])
    \<and> (conn \<noteq> [] \<longrightarrow>
         (\<exists>row\<in>set conn. \<exists>sc. e_id row = randint 1 (int (length conn))
            \<and> json_loads (e_scores row) = Some sc
            \<and> get_random_entry json_loads randint conn
                = Inr (Some (e_id row, e_text row, sc, e_sentiment row))))
    \<and> bij_betw e_id (set conn) {1..int (length conn)}"
proof -
  have picked: "\<exists>row\<in>set conn. \<exists>sc. e_id row = randint 1 (int (length conn))
            \<and> json_loads (e_scores row) = Some sc
            \<and> get_random_entry json_loads randint conn
                = Inr (Some (e_id row, e_text row, sc, e_sentiment row))"
    if ne: "conn \<noteq> []"
  proof -
    let ?k = "randint 1 (int (length conn))"
    from ne have "1 \<le> int (length conn)" by (cases conn) simp_all
    with randint have "?k \<in> {1..int (length conn)}" by simp
    with dense have "?k \<in> e_id ` set conn" by simp
    then obtain row where row: "row \<in> set conn" "e_id row = ?k"
        "find (\<lambda>row. e_id row = ?k) conn = Some row"
      using find_by_id by blast
    from json row(1) obtain sc where sc: "json_loads (e_scores row) = Some sc" by auto
    from ne row sc have "get_random_entry json_loads randint conn
        = Inr (Some (e_id row, e_text row, sc, e_sentiment row))"
      by (simp add: get_random_entry_def Let_def)
    with row sc show ?thesis by blast
  qed
  have "get_random_entry json_loads randint conn = Inr None \<longleftrightarrow> conn = []"
  proof
    assume "conn = []"
    then show "get_random_entry json_loads randint conn = Inr None"
      by (simp add: get_random_entry_def)
  next
    assume none: "get_random_entry json_loads randint conn = Inr None"
    show "conn = []"
    proof (rule ccontr)
      assume "conn \<noteq> []"
      from picked [OF this] none show False by auto
    qed
  qed
  with picked dense_ids_bij [OF dense] show ?thesis by blast
qed

theorem get_random_entry_dense_witness:
  "get_random_entry Some (\<lambda>lo hi. hi)
     [\<lparr>e_id = 1, e_text = ''A'', e_cleaned_text = ''a'', e_scores = ''{}'',
       e_sentiment = ''neutral'', e_date = ''Mon Jan 01 00:00:00 +0000 2018'',
       e_cleaned_date = ''20180101'', e_embedding = ''[0.0]''\<rparr>,
      \<lparr>e_id = 2, e_text = ''B'', e_cleaned_text = ''b'', e_scores = ''{}'',
       e_sentiment = ''neutral'', e_date = ''Tue Jan 02 00:00:00 +0000 2018'',
       e_cleaned_date = ''20180102'', e_embedding = ''[1.0]''\<rparr>]
    = Inr (Some (2, ''B'', ''{}'', ''neutral''))
   \<and> bij_betw e_id
        (set [\<lparr>e_id = 1, e_text = ''A'', e_cleaned_text = ''a'', e_scores = ''{}'',
       e_sentiment = ''neutral'', e_date = ''Mon Jan 01 00:00:00 +0000 2018'',
       e_cleaned_date = ''20180101'', e_embedding = ''[0.0]''\<rparr>,
      \<lparr>e_id = 2, e_text = ''B'', e_cleaned_text = ''b'', e_scores = ''{}'',
       e_sentiment = ''neutral'', e_date = ''Tue Jan 02 00:00:00 +0000 2018'',
       e_cleaned_date = ''20180102'', e_embedding = ''[1.0]''\<rparr>]) {1..2}"
proof -
  let ?r1 = "\<lparr>e_id = 1, e_text = ''A'', e_cleaned_text = ''a'', e_scores = ''{}'',
       e_sentiment = ''neutral'', e_date = ''Mon Jan 01 00:00:00 +0000 2018'',
       e_cleaned_date = ''20180101'', e_embedding = ''[0.0]''\<rparr>"
  let ?r2 = "\<lparr>e_id = 2, e_text = ''B'', e_cleaned_text = ''b'', e_scores = ''{}'',
       e_sentiment = ''neutral'', e_date = ''Tue Jan 02 00:00:00 +0000 2018'',
       e_cleaned_date = ''20180102'', e_embedding = ''[1.0]''\<rparr>"
  have i: "{1..(2::int)} = {1, 2}" by auto
  have l: "int (length [?r1, ?r2]) = 2" by simp
  have dense: "e_id ` set [?r1, ?r2] = {1..int (length [?r1, ?r2])}"
    unfolding l i by simp
  have json: "\<forall>row\<in>set [?r1, ?r2]. Some (e_scores row) \<noteq> None" by simp
  have randint: "\<forall>a b. a \<le> b \<longrightarrow> a \<le> (\<lambda>lo hi. hi) a b \<and> (\<lambda>lo hi. hi) a b \<le> (b::int)" by simp
  note t = get_random_entry_dense [OF dense json randint]
  have b: "bij_betw e_id (set [?r1, ?r2]) {1..2}"
    using t [THEN conjunct2, THEN conjunct2] unfolding l .
  have "get_random_entry Some (\<lambda>lo hi. hi) [?r1, ?r2] = Inr (Some (2, ''B'', ''{}'', ''neutral''))"
    by (simp add: get_random_entry_def)
  from this b show ?thesis by (rule conjI)
qed

text \<open>
  The stores that ingestion builds have such ids: \<open>add_entries\<close> on the empty table, and on
  any table whose ids are 1 to its row count, yields a table whose ids are 1 to its row
  count.
\<close>

lemma fold_max_bound: "fold max xs (a::int) = Max (insert a (set xs))"
proof (induction xs arbitrary: a)
  case Nil
  show ?case by simp
next
  case (Cons x xs)
  have "fold max (x # xs) a = Max (insert (max x a) (set xs))" by (simp add: Cons)
  also have "\<dots> = Max (insert a (set (x # xs)))"
    by (cases "set xs = {}") (auto simp: max.commute max.left_commute)
  finally show ?case .
qed

lemma insert_entry_dense:
  assumes "e_id ` set conn = {1..int (length conn)}"
  shows "e_id ` set (fst (insert_entry conn entry)) = {1..int (length (fst (insert_entry conn entry)))}
    \<and> snd (insert_entry conn entry) = int (length conn) + 1"
proof -
  have "fold max (map e_id conn) 0 = Max (insert 0 {1..int (length conn)})"
    by (simp add: fold_max_bound assms)
  also have "\<dots> = int (length conn)"
    by (rule Max_eqI) (auto simp: Suc_le_eq)
  finally have "fold max (map e_id conn) 0 = int (length conn)" .
  then show ?thesis using assms
    by (auto simp: insert_entry_def Let_def split: prod.splits)
qed

lemma add_entries_dense:
  "e_id ` set conn = {1..int (length conn)} \<Longrightarrow>
     e_id ` set (fst (add_entries conn entries))
       = {1..int (length (fst (add_entries conn entries)))}"
proof (induction entries arbitrary: conn)
  case Nil
  then show ?case by simp
next
  case (Cons entry entries)
  obtain conn1 lastrowid where ie: "insert_entry conn entry = (conn1, lastrowid)"
    by (cases "insert_entry conn entry")
  obtain conn2 ids where ae: "add_entries conn1 entries = (conn2, ids)"
    by (cases "add_entries conn1 entries")
  from insert_entry_dense [OF Cons.prems, of entry] ie
  have "e_id ` set conn1 = {1..int (length conn1)}" by simp
  from Cons.IH [OF this] ae have "e_id ` set conn2 = {1..int (length conn2)}" by simp
  with ie ae show ?case by simp
qed

subsection \<open>Filter by date\<close>

lemma those_map_total:
  "\<forall>x\<in>set xs. f x \<noteq> None \<Longrightarrow> those (map f xs) = Some (map (\<lambda>x. the (f x)) xs)"
  by (induction xs) auto

lemma strptime_Ymd_calendar:
  "eight_digits s \<Longrightarrow> (\<exists>dt. strptime_Ymd s = Some dt) \<longleftrightarrow> is_calendar_date s"
  using strptime_Ymd_refines [of s] by auto

text \<open>
  C5. For every store whose scores are JSON texts and every pair of 8-digit strings: the
  call fails, with the invalid-date error, if and only if one of the two strings is not a
  calendar date in \<open>YYYYMMDD\<close> form; otherwise it returns exactly the rows whose cleaned
  date lies between the two strings, both ends included, in lexicographic order, as tuples
  (id, text, scores, sentiment, cleaned date) sorted ascending by cleaned date.
\<close>

theorem filter_entries_by_date_spec:
  assumes sd: "eight_digits start_date" and ed: "eight_digits end_date"
    and json: "\<forall>row\<in>set conn. json_loads (e_scores row) \<noteq> None"
  shows "(isl (filter_entries_by_date json_loads conn start_date end_date)
            \<longleftrightarrow> \<not> (is_calendar_date start_date \<and> is_calendar_date end_date))
    \<and> (\<not> (is_calendar_date start_date \<and> is_calendar_date end_date) \<longrightarrow>
          filter_entries_by_date json_loads conn start_date end_date = Inl InvalidDateFormat)
    \<and> (is_calendar_date start_date \<and> is_calendar_date end_date \<longrightarrow>
          (\<exists>rows. filter_entries_by_date json_loads conn start_date end_date = Inr rows
             \<and> sorted (map (\<lambda>(i, t, sc, se, d). d) rows)
             \<and> mset rows =
                 mset (map (\<lambda>row. (e_id row, e_text row, the (json_loads (e_scores row)),
                                    e_sentiment row, e_cleaned_date row))
                        (filter (\<lambda>row. start_date \<le> e_cleaned_date row
                                       \<and> e_cleaned_date row \<le> end_date) conn))))"
proof -
  let ?res = "filter_entries_by_date json_loads conn start_date end_date"
  let ?in_range = "filter (\<lambda>row. start_date \<le> e_cleaned_date row
                                       \<and> e_cleaned_date row \<le> end_date) conn"
  let ?proj = "\<lambda>row. (e_id row, e_text row, the (json_loads (e_scores row)),
                                    e_sentiment row, e_cleaned_date row)"
  have bad: "?res = Inl InvalidDateFormat"
    if "\<not> (is_calendar_date start_date \<and> is_calendar_date end_date)"
  proof -
    from that have "strptime_Ymd start_date = None \<or> strptime_Ymd end_date = None"
      using strptime_Ymd_refines [OF sd] strptime_Ymd_refines [OF ed] by blast
    then show ?thesis
      by (auto simp: filter_entries_by_date_def split: option.splits)
  qed
  have good: "\<exists>rows. ?res = Inr rows
             \<and> sorted (map (\<lambda>(i, t, sc, se, d). d) rows)
             \<and> mset rows = mset (map ?proj ?in_range)"
    if "is_calendar_date start_date \<and> is_calendar_date end_date"
  proof -
    from that obtain s e where dt: "strptime_Ymd start_date = Some s" "strptime_Ymd end_date = Some e"
      using strptime_Ymd_calendar [OF sd] strptime_Ymd_calendar [OF ed] by auto
    have "\<forall>row\<in>set ?in_range.
        map_option (\<lambda>sc. (e_id row, e_text row, sc, e_sentiment row, e_cleaned_date row))
          (json_loads (e_scores row)) \<noteq> None"
      using json by simp
    from those_map_total [OF this]
    have th: "those (map (\<lambda>row. map_option
            (\<lambda>sc. (e_id row, e_text row, sc, e_sentiment row, e_cleaned_date row))
            (json_loads (e_scores row))) ?in_range)
        = Some (map (\<lambda>row. the (map_option
            (\<lambda>sc. (e_id row, e_text row, sc, e_sentiment row, e_cleaned_date row))
            (json_loads (e_scores row)))) ?in_range)" .
    have pr: "map (\<lambda>row. the (map_option
            (\<lambda>sc. (e_id row, e_text row, sc, e_sentiment row, e_cleaned_date row))
            (json_loads (e_scores row)))) ?in_range = map ?proj ?in_range"
      using json by (intro map_cong refl) (auto simp: option.map_sel)
    have "?res = Inr (sort_key (\<lambda>(i, t, sc, se, d). d) (map ?proj ?in_range))"
      unfolding filter_entries_by_date_def Let_def dt th pr by simp
    then show ?thesis by simp
  qed
  from bad good show ?thesis by (cases "is_calendar_date start_date \<and> is_calendar_date end_date") auto
qed

theorem filter_entries_by_date_spec_witness:
  "eight_digits ''20180101'' \<and> eight_digits ''20180131''
   \<and> is_calendar_date ''20180101'' \<and> is_calendar_date ''20180131''
   \<and> filter_entries_by_date Some
        [\<lparr>e_id = 1, e_text = ''A'', e_cleaned_text = ''a'', e_scores = ''{}'',
          e_sentiment = ''neutral'', e_date = ''Sun Dec 31 10:00:00 +0000 2017'',
          e_cleaned_date = ''20171231'', e_embedding = ''[0.0]''\<rparr>,
         \<lparr>e_id = 2, e_text = ''B'', e_cleaned_text = ''b'', e_scores = ''{}'',
          e_sentiment = ''neutral'', e_date = ''Mon Jan 15 10:00:00 +0000 2018'',
          e_cleaned_date = ''20180115'', e_embedding = ''[1.0]''\<rparr>,
         \<lparr>e_id = 3, e_text = ''C'', e_cleaned_text = ''c'', e_scores = ''{}'',
          e_sentiment = ''neutral'', e_date = ''Thu Feb 01 10:00:00 +0000 2018'',
          e_cleaned_date = ''20180201'', e_embedding = ''[2.0]''\<rparr>]
        ''20180101'' ''20180131''
       = Inr [(2, ''B'', ''{}'', ''neutral'', ''20180115'')]"
proof -
  let ?conn = "[\<lparr>e_id = 1, e_text = ''A'', e_cleaned_text = ''a'', e_scores = ''{}'',
          e_sentiment = ''neutral'', e_date = ''Sun Dec 31 10:00:00 +0000 2017'',
          e_cleaned_date = ''20171231'', e_embedding = ''[0.0]''\<rparr>,
         \<lparr>e_id = 2, e_text = ''B'', e_cleaned_text = ''b'', e_scores = ''{}'',
          e_sentiment = ''neutral'', e_date = ''Mon Jan 15 10:00:00 +0000 2018'',
          e_cleaned_date = ''20180115'', e_embedding = ''[1.0]''\<rparr>,
         \<lparr>e_id = 3, e_text = ''C'', e_cleaned_text = ''c'', e_scores = ''{}'',
          e_sentiment = ''neutral'', e_date = ''Thu Feb 01 10:00:00 +0000 2018'',
          e_cleaned_date = ''20180201'', e_embedding = ''[2.0]''\<rparr>]"
  have sd: "eight_digits ''20180101''" by code_simp
  have ed: "eight_digits ''20180131''" by code_simp
  have cs: "is_calendar_date ''20180101''" by code_simp
  have ce: "is_calendar_date ''20180131''" by code_simp
  have json: "\<forall>row\<in>set ?conn. Some (e_scores row) \<noteq> None" by simp
  have c1: "\<not> (''20180101'' \<le> ''20171231'' \<and> ''20171231'' \<le> ''20180131'')" by code_simp
  have c2: "''20180101'' \<le> ''20180115'' \<and> ''20180115'' \<le> ''20180131''" by code_simp
  have c3: "\<not> (''20180101'' \<le> ''20180201'' \<and> ''20180201'' \<le> ''20180131'')" by code_simp
  from filter_entries_by_date_spec [OF sd ed json] cs ce
  obtain rows where rows: "filter_entries_by_date Some ?conn ''20180101'' ''20180131'' = Inr rows"
    and m: "mset rows =
        mset (map (\<lambda>row. (e_id row, e_text row, the (Some (e_scores row)),
                           e_sentiment row, e_cleaned_date row))
               (filter (\<lambda>row. ''20180101'' \<le> e_cleaned_date row
                              \<and> e_cleaned_date row \<le> ''20180131'') ?conn))"
    by blast
  from m c1 c2 c3 have "mset rows = {#(2, ''B'', ''{}'', ''neutral'', ''20180115'')#}"
    by (simp del: Cons_le_Cons)
  then have "rows = [(2, ''B'', ''{}'', ''neutral'', ''20180115'')]" by simp
  with rows sd ed cs ce show ?thesis by simp
qed

subsection \<open>Selection of the most similar rows\<close>

lemma insort_key_map:
  "insort_key f (g x) (map g xs) = map g (insort_key (\<lambda>y. f (g y)) x xs)"
  by (induction xs) auto

lemma sort_key_map:
  "sort_key f (map g xs) = map g (sort_key (\<lambda>y. f (g y)) xs)"
  by (induction xs) (auto simp: insort_key_map)

lemma nlargest_zip:
  "nlargest n snd (zip rows (map key rows)) = map (\<lambda>row. (row, key row)) (nlargest n key rows)"
proof -
  have "zip rows (map key rows) = map (\<lambda>row. (row, key row)) rows"
    by (induction rows) auto
  then show ?thesis
    by (simp add: nlargest_def sort_key_map take_map)
qed







lemma get_top_n_similar_texts_ok:
  assumes "df \<noteq> []" "encode input_text \<noteq> []"
    and "\<forall>row\<in>set df. length (snd row) = length (encode input_text)"
  shows "get_top_n_similar_texts encode cosine df input_text top_n
     = Inr (map fst (nlargest top_n (\<lambda>row. cosine (encode input_text) (snd row)) df))"
proof -
  have hd: "length (hd (map snd df)) = length (encode input_text)"
    using assms(1,3) by (cases df) auto
  have "zip df (map (cosine (encode input_text)) (map snd df))
      = zip df (map (\<lambda>row. cosine (encode input_text) (snd row)) df)" by (simp add: comp_def)
  then have "nlargest top_n snd (zip df (map (cosine (encode input_text)) (map snd df)))
      = map (\<lambda>row. (row, cosine (encode input_text) (snd row)))
          (nlargest top_n (\<lambda>row. cosine (encode input_text) (snd row)) df)"
    by (simp only: nlargest_zip)
  then show ?thesis
    using assms hd by (simp add: get_top_n_similar_texts_def Let_def comp_def)
qed

subsection \<open>The example of three embeddings\<close>

lemma sqrt_82_lower: "181 / 200 < sqrt (82 / 100)"
  by (rule real_less_rsqrt) (simp add: power2_eq_square)


lemma exact_cosine_orthogonal: "exact_cosine [1, 0] [0, 1] = 0"
  by (simp add: exact_cosine_def dot_def)

lemma exact_cosine_near: "exact_cosine [1, 0] [9 / 10, 1 / 10] = (9 / 10) / sqrt (82 / 100)"
proof -
  have d: "dot [9 / 10, 1 / 10] [9 / 10, 1 / 10] = 82 / 100"
    by (simp add: dot_def)
  have q: "dot [1, 0] [1, 0] = 1" "dot [1, 0] [9 / 10, 1 / 10] = 9 / 10"
    by (simp_all add: dot_def)
  show ?thesis unfolding exact_cosine_def d q by simp
qed

lemma exact_cosine_near_bounds:
  "1 / 2 < exact_cosine [1, 0] [9 / 10, 1 / 10] \<and> exact_cosine [1, 0] [9 / 10, 1 / 10] < 199 / 200"
proof -
  have p: "0 < sqrt (82 / 100)" using sqrt_82_lower by simp
  have u: "sqrt (82 / 100) < 1" by simp
  have "9 / 10 < 199 / 200 * sqrt (82 / 100)" using sqrt_82_lower by linarith
  then have 1: "(9 / 10) / sqrt (82 / 100) < 199 / 200"
    using p by (metis pos_divide_less_eq)
  have "1 / 2 * sqrt (82 / 100) < 9 / 10" using u by linarith
  then have 2: "1 / 2 < (9 / 10) / sqrt (82 / 100)"
    using p by (metis pos_less_divide_eq)
  from 1 2 show ?thesis by (simp only: exact_cosine_near)
qed



lemma example_top_1_excluded:
  assumes "encode input_text = [1, 0]"
    and "\<forall>e\<in>set [[0, 1], [9 / 10, 1 / 10]].
           \<bar>cosine [1, 0] e - exact_cosine [1, 0] e\<bar> \<le> 1 / 1000"
  shows "get_top_n_similar_texts encode cosine
           [(b, [0, 1]), (c, [9 / 10, 1 / 10])] input_text 1 = Inr [c]"
proof -
  let ?df = "[(b, [0, 1]), (c, [9 / 10, 1 / 10 :: real])]"
  from assms(2) have "\<bar>cosine [1, 0] [0, 1] - exact_cosine [1, 0] [0, 1]\<bar> \<le> 1 / 1000"
    and "\<bar>cosine [1, 0] [9 / 10, 1 / 10] - exact_cosine [1, 0] [9 / 10, 1 / 10]\<bar> \<le> 1 / 1000"
    by simp_all
  then have cb: "cosine [1, 0] [0, 1] \<le> 1 / 1000"
    and cc: "499 / 1000 < cosine [1, 0] [9 / 10, 1 / 10]"
    unfolding exact_cosine_orthogonal using exact_cosine_near_bounds
    by linarith+
  have "get_top_n_similar_texts encode cosine ?df input_text 1
      = Inr (map fst (nlargest 1 (\<lambda>row. cosine (encode input_text) (snd row)) ?df))"
    by (rule get_top_n_similar_texts_ok) (simp_all add: assms(1))
  also have "nlargest 1 (\<lambda>row. cosine (encode input_text) (snd row)) ?df
      = [(c, [9 / 10, 1 / 10])]"
    using cb cc by (simp add: nlargest_def assms(1))
  finally show ?thesis by simp
qed




subsection \<open>The candidates of the request handler\<close>

lemma get_top_n_similar_texts_from_df:
  assumes "get_top_n_similar_texts encode cosine df input_text top_n = Inr texts"
  shows "set texts \<subseteq> fst ` set df"
proof -
  let ?sims = "map (cosine (encode input_text)) (map snd df)"
  from assms have "texts = map (\<lambda>row. fst (fst row)) (nlargest top_n snd (zip df ?sims))"
    by (auto simp: get_top_n_similar_texts_def Let_def split: if_splits)
  moreover have "set (nlargest top_n snd (zip df ?sims)) \<subseteq> set (zip df ?sims)"
    unfolding nlargest_def using set_take_subset [of "nat top_n" "sort_key (\<lambda>row. - snd row) (zip df ?sims)"]
    by simp
  moreover have "fst ` set (zip df ?sims) \<subseteq> set df"
    by (auto dest: set_zip_leftD)
  ultimately show ?thesis by force
qed

text \<open>
  C10. For every stored id, every \<open>n\<close> that the handler accepts and every store whose
  embeddings are JSON texts: the handler answers with the result of the similarity search
  on the frame made of the rows whose id differs from the queried id, in store order, and
  of no other row; so every text it returns is the text of a row with another id.
\<close>

theorem top_n_similar_texts_excludes_query:
  assumes stored: "query_id \<in> e_id ` set conn" and n: "1 \<le> top_n"
    and json: "\<forall>row\<in>set conn. json_loads (e_embedding row) \<noteq> None"
  shows "\<exists>row\<in>set conn. e_id row = query_id
      \<and> top_n_similar_texts json_loads encode cosine conn query_id top_n
          = get_top_n_similar_texts encode cosine
              (map (\<lambda>row. (e_text row, the (json_loads (e_embedding row))))
                 (filter (\<lambda>row. e_id row \<noteq> query_id) conn))
              (e_cleaned_text row) top_n
      \<and> (\<forall>texts. top_n_similar_texts json_loads encode cosine conn query_id top_n = Inr texts
            \<longrightarrow> set texts \<subseteq> e_text ` {row \<in> set conn. e_id row \<noteq> query_id})"
proof -
  let ?others = "filter (\<lambda>row. e_id row \<noteq> query_id) conn"
  let ?df = "map (\<lambda>row. (e_text row, the (json_loads (e_embedding row)))) ?others"
  from stored obtain row where row: "row \<in> set conn" "e_id row = query_id"
      "find (\<lambda>row. e_id row = query_id) conn = Some row"
    using find_by_id by blast
  have "\<forall>p\<in>set (map (\<lambda>row. (e_text row, e_embedding row)) ?others).
          (case p of (t, e) \<Rightarrow> map_option (Pair t) (json_loads e)) \<noteq> None"
    using json by auto
  from those_map_total [OF this]
  have "those (map (\<lambda>(t, e). map_option (Pair t) (json_loads e))
           (map (\<lambda>row. (e_text row, e_embedding row)) ?others))
      = Some (map (\<lambda>p. the (case p of (t, e) \<Rightarrow> map_option (Pair t) (json_loads e)))
           (map (\<lambda>row. (e_text row, e_embedding row)) ?others))" .
  also have "map (\<lambda>p. the (case p of (t, e) \<Rightarrow> map_option (Pair t) (json_loads e)))
           (map (\<lambda>row. (e_text row, e_embedding row)) ?others) = ?df"
    using json by (auto simp: option.map_sel)
  finally have th: "those (map (\<lambda>(t, e). map_option (Pair t) (json_loads e))
           (map (\<lambda>row. (e_text row, e_embedding row)) ?others)) = Some ?df" .
  have eq: "top_n_similar_texts json_loads encode cosine conn query_id top_n
      = get_top_n_similar_texts encode cosine ?df (e_cleaned_text row) top_n"
    using n row(3) th by (simp add: top_n_similar_texts_def Let_def)
  have "set texts \<subseteq> e_text ` {row \<in> set conn. e_id row \<noteq> query_id}"
    if "top_n_similar_texts json_loads encode cosine conn query_id top_n = Inr texts" for texts
  proof -
    from that eq have "set texts \<subseteq> fst ` set ?df"
      using get_top_n_similar_texts_from_df by metis
    also have "fst ` set ?df = e_text ` {row \<in> set conn. e_id row \<noteq> query_id}"
      by (auto simp: image_iff)
    finally show ?thesis .
  qed
  with row(1,2) eq show ?thesis by blast
qed

theorem top_n_similar_texts_excludes_query_witness:
  "top_n_similar_texts
     (\<lambda>s. if s = ''[1.0, 0.0]'' then Some [1, 0]
          else if s = ''[0.0, 1.0]'' then Some [0, 1]
          else if s = ''[0.9, 0.1]'' then Some [9 / 10, 1 / 10] else None)
     (\<lambda>t. [1, 0]) exact_cosine
     [\<lparr>e_id = 1, e_text = ''one'', e_cleaned_text = ''one'', e_scores = ''{}'',
       e_sentiment = ''neutral'', e_date = ''Mon Jan 01 00:00:00 +0000 2018'',
       e_cleaned_date = ''20180101'', e_embedding = ''[1.0, 0.0]''\<rparr>,
      \<lparr>e_id = 2, e_text = ''two'', e_cleaned_text = ''two'', e_scores = ''{}'',
       e_sentiment = ''neutral'', e_date = ''Tue Jan 02 00:00:00 +0000 2018'',
       e_cleaned_date = ''20180102'', e_embedding = ''[0.0, 1.0]''\<rparr>,
      \<lparr>e_id = 3, e_text = ''three'', e_cleaned_text = ''three'', e_scores = ''{}'',
       e_sentiment = ''neutral'', e_date = ''Wed Jan 03 00:00:00 +0000 2018'',
       e_cleaned_date = ''20180103'', e_embedding = ''[0.9, 0.1]''\<rparr>] 1 1
   = Inr [''three'']"
proof -
  define loads :: "string \<Rightarrow> real list option" where
    "loads = (\<lambda>s. if s = ''[1.0, 0.0]'' then Some [1, 0]
          else if s = ''[0.0, 1.0]'' then Some [0, 1]
          else if s = ''[0.9, 0.1]'' then Some [9 / 10, 1 / 10] else None)"
  define conn :: store where
    "conn = [\<lparr>e_id = 1, e_text = ''one'', e_cleaned_text = ''one'', e_scores = ''{}'',
       e_sentiment = ''neutral'', e_date = ''Mon Jan 01 00:00:00 +0000 2018'',
       e_cleaned_date = ''20180101'', e_embedding = ''[1.0, 0.0]''\<rparr>,
      \<lparr>e_id = 2, e_text = ''two'', e_cleaned_text = ''two'', e_scores = ''{}'',
       e_sentiment = ''neutral'', e_date = ''Tue Jan 02 00:00:00 +0000 2018'',
       e_cleaned_date = ''20180102'', e_embedding = ''[0.0, 1.0]''\<rparr>,
      \<lparr>e_id = 3, e_text = ''three'', e_cleaned_text = ''three'', e_scores = ''{}'',
       e_sentiment = ''neutral'', e_date = ''Wed Jan 03 00:00:00 +0000 2018'',
       e_cleaned_date = ''20180103'', e_embedding = ''[0.9, 0.1]''\<rparr>]"
  define encode :: "string \<Rightarrow> real list" where "encode = (\<lambda>t. [1, 0])"
  have stored: "1 \<in> e_id ` set conn" by (simp add: conn_def)
  have n: "(1::int) \<le> 1" by simp
  have json: "\<forall>row\<in>set conn. loads (e_embedding row) \<noteq> None"
    by (simp add: conn_def loads_def)
  have df: "map (\<lambda>row. (e_text row, the (loads (e_embedding row))))
              (filter (\<lambda>row. e_id row \<noteq> 1) conn)
            = [(''two'', [0, 1]), (''three'', [9 / 10, 1 / 10])]"
    by (simp add: conn_def loads_def)
  have ex: "get_top_n_similar_texts encode exact_cosine
          [(''two'', [0, 1]), (''three'', [9 / 10, 1 / 10])] q 1 = Inr [''three'']" for q
    by (rule example_top_1_excluded) (simp_all add: encode_def)
  have "top_n_similar_texts loads encode exact_cosine conn 1 1 = Inr [''three'']"
    using top_n_similar_texts_excludes_query [OF stored n json, of encode exact_cosine]
    unfolding df ex by blast
  then show ?thesis
    unfolding loads_def conn_def encode_def .
qed

subsection \<open>The two scoring paths\<close>

text \<open>
  C4. The claim is that the batch variant and the single-item variant give the same scores
  and label for the same text. On the text \<open>@awesome\<close> the single-item variant scores the
  cleaned text, which is empty, and the batch variant scores the text itself. For every
  scorer that finds nothing in the empty string (a compound score strictly between the
  thresholds) and finds the word in \<open>@awesome\<close> (a compound score of at least 0.05), as
  VADER does with the lexicon that \<open>vader_init\<close> extends, the single-item label is neutral
  and the batch label is positive, and the scores differ.
\<close>

theorem scoring_paths_differ:
  assumes "polarity_scores '''' ''compound'' = Some c0" and "- 0.05 < c0" and "c0 < 0.05"
    and "polarity_scores ''@awesome'' ''compound'' = Some c1" and "0.05 \<le> c1"
  shows "vader_analyze_tweet polarity_scores ''@awesome''
           = Inr (''@awesome'', polarity_scores '''', ''neutral'')
       \<and> vader_analyze_dataframe polarity_scores json_dumps [''@awesome'']
           = Inr [(''@awesome'', json_dumps (polarity_scores ''@awesome''), ''positive'')]
       \<and> polarity_scores '''' \<noteq> polarity_scores ''@awesome''"
proof -
  have c: "cleanup_single ''@awesome'' = ''''" by code_simp
  have l0: "classify_sentiment (polarity_scores '''') = Inr ''neutral''"
    using assms(1,2,3) by (simp add: classify_sentiment_def)
  have l1: "classify_sentiment (polarity_scores ''@awesome'') = Inr ''positive''"
    using assms(4,5) by (simp add: classify_sentiment_def)
  have d: "polarity_scores '''' \<noteq> polarity_scores ''@awesome''"
    using l0 l1 by auto
  show ?thesis
    unfolding vader_analyze_tweet_def vader_analyze_dataframe_def Let_def c
    using l0 l1 d by simp
qed

theorem scoring_paths_differ_witness:
  "vader_analyze_tweet
     (\<lambda>t. if t = '''' then [''neg'' \<mapsto> 0, ''neu'' \<mapsto> 0, ''pos'' \<mapsto> 0, ''compound'' \<mapsto> 0]
          else [''neg'' \<mapsto> 0, ''neu'' \<mapsto> 0, ''pos'' \<mapsto> 1, ''compound'' \<mapsto> 2263 / 10000])
     ''@awesome''
   = Inr (''@awesome'', [''neg'' \<mapsto> 0, ''neu'' \<mapsto> 0, ''pos'' \<mapsto> 0, ''compound'' \<mapsto> 0], ''neutral'')
   \<and> vader_analyze_dataframe
     (\<lambda>t. if t = '''' then [''neg'' \<mapsto> 0, ''neu'' \<mapsto> 0, ''pos'' \<mapsto> 0, ''compound'' \<mapsto> 0]
          else [''neg'' \<mapsto> 0, ''neu'' \<mapsto> 0, ''pos'' \<mapsto> 1, ''compound'' \<mapsto> 2263 / 10000])
     (\<lambda>score. ''json'') [''@awesome'']
   = Inr [(''@awesome'', ''json'', ''positive'')]"
proof -
  define ps :: "string \<Rightarrow> scores" where
    "ps = (\<lambda>t. if t = '''' then [''neg'' \<mapsto> 0, ''neu'' \<mapsto> 0, ''pos'' \<mapsto> 0, ''compound'' \<mapsto> 0]
          else [''neg'' \<mapsto> 0, ''neu'' \<mapsto> 0, ''pos'' \<mapsto> 1, ''compound'' \<mapsto> 2263 / 10000])"
  have 1: "ps '''' ''compound'' = Some 0" by (simp add: ps_def)
  have 2: "- 0.05 < (0::real)" by simp
  have 3: "(0::real) < 0.05" by simp
  have 4: "ps ''@awesome'' ''compound'' = Some (2263 / 10000)" by (simp add: ps_def)
  have 5: "0.05 \<le> (2263 / 10000 :: real)" by simp
  have e: "ps '''' = [''neg'' \<mapsto> 0, ''neu'' \<mapsto> 0, ''pos'' \<mapsto> 0, ''compound'' \<mapsto> 0]"
    by (simp add: ps_def)
  from scoring_paths_differ [of ps 0 "2263 / 10000" "\<lambda>score. ''json''", OF 1 2 3 4 5]
  have "vader_analyze_tweet ps ''@awesome'' = Inr (''@awesome'', ps '''', ''neutral'')
      \<and> vader_analyze_dataframe ps (\<lambda>score. ''json'') [''@awesome'']
           = Inr [(''@awesome'', ''json'', ''positive'')]"
    by blast
  then show ?thesis unfolding e unfolding ps_def .
qed

end
